theory Spec2Isabelle
  imports Complex_Main
begin

section \<open>The feed harvester of feedscraper (feed.py)\<close>

subsection \<open>The document session and what the harvester does to it\<close>

text \<open>
  The harvester drives a browser. Every call it makes to the browser, every pause and
  every record it hands to its consumer is written to a trace, in the order of the source.
\<close>

datatype scroll_target =
    Pixels nat          \<comment> \<open>\<open>scroll_to_pos(1)\<close>\<close>
  | ScrollHeight        \<comment> \<open>\<open>scroll_to_pos('document.body.scrollHeight')\<close>\<close>

datatype locator =
    FeedEl              \<comment> \<open>\<open>//div[@role="feed"]\<close>, line 152\<close>
  | PostEl nat          \<comment> \<open>\<open>extractors.post_el(feed_el, i)\<close>, lines 167 and 187\<close>

datatype message =
    Literal string
  | ScrollFailCount nat nat   \<comment> \<open>\<open>f'{post_count} Scroll Fail Count: {scroll_fail_count}'\<close>\<close>
  | LoadFailCount nat nat     \<comment> \<open>\<open>f'{post_count} Load fail count: {load_fail_count}'\<close>\<close>
  | ExcStr locator            \<comment> \<open>\<open>str(e)\<close> of the NoSuchElementException of a lookup\<close>
  | Traceback locator         \<comment> \<open>\<open>traceback.format_exc()\<close>\<close>

datatype 'p event =
    ScrollTo scroll_target    \<comment> \<open>\<open>driver.execute_script("window.scrollTo(0, pos);")\<close>\<close>
  | Sleep rat                 \<comment> \<open>\<open>sleep(seconds)\<close>\<close>
  | Find locator bool         \<comment> \<open>an element lookup and whether it found the element\<close>
  | Yield nat 'p              \<comment> \<open>a record handed to the consumer, tagged with the position probed\<close>
  | Warning message           \<comment> \<open>\<open>utils.warning\<close>\<close>
  | Error message             \<comment> \<open>\<open>utils.error\<close>\<close>
  | Print message             \<comment> \<open>\<open>print\<close>\<close>

datatype error =
    SystemExit int            \<comment> \<open>raised by \<open>exit(1)\<close>, line 157\<close>
  | TypeError                 \<comment> \<open>raised by \<open>Feed.SidebarAd(*lst)\<close> on a wrong number of arguments\<close>

text \<open>
  The session answers the lookups. An answer may depend on everything that happened
  before (scrolling, waiting, lazy rendering), so the answers to the post lookups are
  indexed by the number of post lookups the session has answered so far, and by the
  position asked for. \<open>None\<close> is selenium's NoSuchElementException.
  \<open>Post.from_home_element\<close> and the \<open>Field\<close> enum live in modules outside feed.py and
  are parameters of the session.
\<close>

record ('el, 'p, 'f) session =
  find_feed :: "nat \<Rightarrow> bool"
  post_el :: "nat \<Rightarrow> nat \<Rightarrow> 'el option"
  from_home_element :: "'el \<Rightarrow> 'f list \<Rightarrow> 'p"
  all_fields :: "'f list"

subsection \<open>The state of one harvest\<close>

text \<open>
  The local variables of \<open>browse\<close>, the number of post lookups the session has answered
  (\<open>clock\<close>) and the trace of this harvest. Python leaves \<open>load_fail_count\<close> unbound
  until line 173 assigns it; no line reads it before that, and the model starts it at 0.
\<close>

record 'p state =
  i :: nat
  post_count :: nat
  scroll_fail_count :: nat
  load_fail_count :: nat
  clock :: nat
  trace :: "'p event list"

definition SCROLL_PAUSE :: rat where
  "SCROLL_PAUSE = 12 / 10"

definition emit :: "'p event list \<Rightarrow> 'p state \<Rightarrow> 'p state" where
  "emit es s = s\<lparr>trace := trace s @ es\<rparr>"

definition scroll_to_pos :: "scroll_target \<Rightarrow> 'p state \<Rightarrow> 'p state" where
  "scroll_to_pos pos s = emit [ScrollTo pos] s"

definition scroll_to_bottom :: "'p state \<Rightarrow> 'p state" where
  "scroll_to_bottom s = emit [Sleep SCROLL_PAUSE] (scroll_to_pos ScrollHeight s)"

definition scroll_to_top :: "'p state \<Rightarrow> 'p state" where
  "scroll_to_top s = scroll_to_pos (Pixels 1) s"

text \<open>
  One evaluation of \<open>extractors.post_el(feed_el, i)\<close>: the session answers, its clock
  advances, the lookup is traced.
\<close>

definition probe :: "('el, 'p, 'f) session \<Rightarrow> 'p state \<Rightarrow> 'el option \<times> 'p state" where
  "probe sess s =
     (let r = post_el sess (clock s) (i s)
      in (r, (emit [Find (PostEl (i s)) (r \<noteq> None)] s)\<lparr>clock := clock s + 1\<rparr>))"

subsection \<open>The retry loops of browse\<close>

text \<open>The inner loop, lines 183 to 198.\<close>

function load_loop :: "('el, 'p, 'f) session \<Rightarrow> 'f list \<Rightarrow> 'p state \<Rightarrow> 'p state" where
  "load_loop sess flds s =
     (if load_fail_count s < 10 then
        (case probe sess s of
           (Some el, s1) \<Rightarrow>
             (emit [Yield (i s1) (from_home_element sess el flds)] s1)
               \<lparr>scroll_fail_count := 0, load_fail_count := 0\<rparr>
         | (None, s1) \<Rightarrow>
             (let s2 = emit [Sleep (1 / 2)] s1;
                  s3 = s2\<lparr>load_fail_count := load_fail_count s2 + 1\<rparr>;
                  s4 = emit [Warning (LoadFailCount (post_count s3) (load_fail_count s3)),
                             Warning (Traceback (PostEl (i s3))),
                             Warning (ExcStr (PostEl (i s3)))] s3
              in load_loop sess flds s4))
      else s)"
  by pat_completeness auto
termination
  by (relation "measure (\<lambda>(sess, flds, s). 10 - load_fail_count s)")
     (auto simp: probe_def emit_def Let_def)

declare load_loop.simps [simp del]

text \<open>One pass through the body of the outer loop, lines 164 to 200.\<close>

definition loop_body :: "('el, 'p, 'f) session \<Rightarrow> 'f list \<Rightarrow> 'p state \<Rightarrow> 'p state" where
  "loop_body sess flds s =
     (let s' =
        (case probe sess s of
           (Some el, s1) \<Rightarrow> emit [Yield (i s1) (from_home_element sess el flds)] s1
         | (None, s1) \<Rightarrow>
             (let s2 = s1\<lparr>scroll_fail_count := scroll_fail_count s1 + 1\<rparr>;
                  s3 = s2\<lparr>load_fail_count := 0\<rparr>;
                  s4 = emit [Warning (ScrollFailCount (post_count s3) (scroll_fail_count s3)),
                             Warning (ExcStr (PostEl (i s3)))] s3;
                  s5 = scroll_to_bottom s4;
                  s6 = emit [Sleep SCROLL_PAUSE] s5
              in load_loop sess flds s6))
      in s'\<lparr>i := i s' + 1\<rparr>)"

text \<open>
  The outer loop, line 163. It may run forever (a feed that keeps answering), so the
  model counts passes: \<open>None\<close> says that \<open>fuel\<close> passes did not end the loop.
\<close>

fun browse_loop ::
  "nat \<Rightarrow> ('el, 'p, 'f) session \<Rightarrow> 'f list \<Rightarrow> 'p state \<Rightarrow> 'p state option" where
  "browse_loop fuel sess flds s =
     (if scroll_fail_count s < 10 then
        (case fuel of
           0 \<Rightarrow> None
         | Suc n \<Rightarrow> browse_loop n sess flds (loop_body sess flds s))
      else Some s)"

declare browse_loop.simps [simp del]

text \<open>
  Lines 146 to 161: the default of \<open>fields\<close>, the scroll to the top, the lookup of the
  feed element and the initial values. \<open>t0\<close> is the session's clock when the harvest
  starts. A missing feed element ends the harvest in \<open>exit(1)\<close>.
\<close>

definition browse_start ::
  "('el, 'p, 'f) session \<Rightarrow> nat \<Rightarrow> ('p event list \<times> error) + 'p state" where
  "browse_start sess t0 =
     (let tr = [ScrollTo (Pixels 1)]
      in if find_feed sess t0
         then Inr \<lparr>i = 1, post_count = 0, scroll_fail_count = 0, load_fail_count = 0,
                   clock = t0, trace = tr @ [Find FeedEl True]\<rparr>
         else Inl (tr @ [Find FeedEl False,
                         Error (Literal ''Could not find feed element!''),
                         Print (ExcStr FeedEl)],
                   SystemExit 1))"

definition browse ::
  "nat \<Rightarrow> ('el, 'p, 'f) session \<Rightarrow> 'f list option \<Rightarrow> nat
     \<Rightarrow> (('p event list \<times> error) + 'p state) option" where
  "browse fuel sess flds t0 =
     (let fs = (case flds of None \<Rightarrow> all_fields sess | Some f \<Rightarrow> f)
      in case browse_start sess t0 of
           Inl e \<Rightarrow> Some (Inl e)
         | Inr s \<Rightarrow> map_option Inr (browse_loop fuel sess fs s))"

text \<open>
  A consumer may stop advancing the generator, and a feed may never run dry:
  \<open>browse_iter n\<close> is the state after at most \<open>n\<close> passes of the outer loop.
\<close>

fun browse_iter ::
  "nat \<Rightarrow> ('el, 'p, 'f) session \<Rightarrow> 'f list \<Rightarrow> 'p state \<Rightarrow> 'p state" where
  "browse_iter 0 sess flds s = s"
| "browse_iter (Suc n) sess flds s =
     (if scroll_fail_count s < 10 then browse_iter n sess flds (loop_body sess flds s) else s)"

subsection \<open>Observations on a trace\<close>

text \<open>
  The records handed to the consumer with their positions, the number of scrolls to the
  bottom of the page (one per scroll cycle, line 180) and the number of half-second pauses
  (one per failed retry, line 194).
\<close>

fun yields :: "'p event list \<Rightarrow> (nat \<times> 'p) list" where
  "yields [] = []"
| "yields (Yield n p # es) = (n, p) # yields es"
| "yields (e # es) = yields es"

definition scroll_cycles :: "'p event list \<Rightarrow> nat" where
  "scroll_cycles tr = length (filter (\<lambda>e. e = ScrollTo ScrollHeight) tr)"

definition half_sleeps :: "'p event list \<Rightarrow> nat" where
  "half_sleeps tr = length (filter (\<lambda>e. e = Sleep (1 / 2)) tr)"

text \<open>The state at line 183, when the lookup of line 167 has failed in state \<open>s\<close>.\<close>

definition after_scroll :: "'p state \<Rightarrow> 'p state" where
  "after_scroll s =
     s\<lparr>scroll_fail_count := scroll_fail_count s + 1, load_fail_count := 0,
       clock := clock s + 1,
       trace := trace s @ [Find (PostEl (i s)) False,
                  Warning (ScrollFailCount (post_count s) (scroll_fail_count s + 1)),
                  Warning (ExcStr (PostEl (i s))),
                  ScrollTo ScrollHeight, Sleep SCROLL_PAUSE, Sleep SCROLL_PAUSE]\<rparr>"

subsection \<open>Sample sessions\<close>

text \<open>
  A feed of \<open>n\<close> posts that are all rendered from the start, and a feed whose only post
  appears once the session has answered \<open>d\<close> lookups.
\<close>

definition static_feed :: "nat \<Rightarrow> (nat, nat, unit) session" where
  "static_feed n =
     \<lparr>find_feed = (\<lambda>t. True),
      post_el = (\<lambda>k j. if 1 \<le> j \<and> j \<le> n then Some j else None),
      from_home_element = (\<lambda>el flds. el),
      all_fields = []\<rparr>"

definition late_feed :: "nat \<Rightarrow> (nat, nat, unit) session" where
  "late_feed d =
     \<lparr>find_feed = (\<lambda>t. True),
      post_el = (\<lambda>k j. if d \<le> k \<and> j = 1 then Some j else None),
      from_home_element = (\<lambda>el flds. el),
      all_fields = []\<rparr>"

definition no_feed :: "(nat, nat, unit) session" where
  "no_feed =
     \<lparr>find_feed = (\<lambda>t. False),
      post_el = (\<lambda>k j. None),
      from_home_element = (\<lambda>el flds. el),
      all_fields = []\<rparr>"

text \<open>The positions of the post lookups of a trace, in order.\<close>

fun probed :: "'p event list \<Rightarrow> nat list" where
  "probed [] = []"
| "probed (Find (PostEl n) b # es) = n # probed es"
| "probed (e # es) = probed es"

text \<open>
  The state in which \<open>browse_start\<close> leaves a harvest that begins on a fresh session
  (clock 0) with the feed element found.
\<close>

definition initial :: "'p state" where
  "initial = \<lparr>i = 1, post_count = 0, scroll_fail_count = 0, load_fail_count = 0,
              clock = 0, trace = [ScrollTo (Pixels 1), Find FeedEl True]\<rparr>"

text \<open>The positions whose lookup found a post, in the order of the lookups.\<close>

fun found_positions :: "'p event list \<Rightarrow> nat list" where
  "found_positions [] = []"
| "found_positions (Find (PostEl n) True # es) = n # found_positions es"
| "found_positions (e # es) = found_positions es"

text \<open>
  What holds between the passes of a harvest: the records handed out are those of the
  successful lookups, their positions increase strictly, and all lie below the position
  counter.
\<close>

definition harvest_inv :: "'p state \<Rightarrow> bool" where
  "harvest_inv s =
     (map fst (yields (trace s)) = found_positions (trace s) \<and>
      sorted_wrt (<) (found_positions (trace s)) \<and>
      list_all (\<lambda>n. 1 \<le> n \<and> n < i s) (found_positions (trace s)) \<and> 1 \<le> i s)"

text \<open>
  A feed of three posts whose third post is rendered only once the session has answered
  three lookups (the lookup of position 3 fails once and its first retry succeeds), and a
  feed of three posts that are rendered only once the session has answered eleven lookups.
\<close>

definition lazy_feed :: "(nat, nat, unit) session" where
  "lazy_feed =
     \<lparr>find_feed = (\<lambda>t. True),
      post_el = (\<lambda>k j. if j = 1 \<or> j = 2 \<or> (j = 3 \<and> 3 \<le> k) then Some j else None),
      from_home_element = (\<lambda>el flds. el),
      all_fields = []\<rparr>"

definition slow_feed :: "(nat, nat, unit) session" where
  "slow_feed =
     \<lparr>find_feed = (\<lambda>t. True),
      post_el = (\<lambda>k j. if 11 \<le> k \<and> 1 \<le> j \<and> j \<le> 3 then Some j else None),
      from_home_element = (\<lambda>el flds. el),
      all_fields = []\<rparr>"

text \<open>The positions of the records handed out by a harvest that returned normally.\<close>

definition harvested :: "(('p event list \<times> error) + 'p state) option \<Rightarrow> nat list option" where
  "harvested r =
     (case r of
        Some (Inr s) \<Rightarrow> Some (map fst (yields (trace s)))
      | _ \<Rightarrow> None)"

subsection \<open>The sidebar advertisements\<close>

text \<open>
  \<open>str.splitlines\<close>: a string is cut at every line boundary, a carriage return followed
  by a line feed counting as one boundary, and a boundary at the very end opens no further
  line. A \<open>char\<close> is 8 bits wide, so the model covers the texts of code points below 256;
  the two line boundaries of Python above that range (U+2028, U+2029) cannot occur in it.
\<close>

definition is_linebreak :: "char \<Rightarrow> bool" where
  "is_linebreak c =
     (c = CHR 0x0A \<or> c = CHR 0x0D \<or> c = CHR 0x0B \<or> c = CHR 0x0C \<or>
      c = CHR 0x1C \<or> c = CHR 0x1D \<or> c = CHR 0x1E \<or> c = CHR 0x85)"

fun splitlines_from :: "string \<Rightarrow> string \<Rightarrow> string list" where
  "splitlines_from cur [] = (if cur = [] then [] else [rev cur])"
| "splitlines_from cur [c] = (if is_linebreak c then [rev cur] else [rev (c # cur)])"
| "splitlines_from cur (c # d # cs) =
     (if c = CHR 0x0D \<and> d = CHR 0x0A then rev cur # splitlines_from [] cs
      else if is_linebreak c then rev cur # splitlines_from [] (d # cs)
      else splitlines_from (c # cur) (d # cs))"

definition splitlines :: "string \<Rightarrow> string list" where
  "splitlines s = splitlines_from [] s"

text \<open>
  \<open>Feed.SidebarAd\<close> is a namedtuple of two fields, \<open>text\<close> and \<open>link\<close>.
  \<open>Feed.SidebarAd(*lst)\<close> (line 95) passes the lines as positional arguments and raises
  a TypeError unless there are exactly two.
\<close>

record sidebar_ad =
  ad_text :: string
  ad_link :: string

definition SidebarAd :: "string list \<Rightarrow> error + sidebar_ad" where
  "SidebarAd lst =
     (case lst of
        [t, l] \<Rightarrow> Inr \<lparr>ad_text = t, ad_link = l\<rparr>
      | _ \<Rightarrow> Inl TypeError)"

text \<open>\<open>list(...)\<close> of the lazy \<open>map\<close>: the first element that raises ends the call.\<close>

fun collect :: "(error + 'a) list \<Rightarrow> error + 'a list" where
  "collect [] = Inr []"
| "collect (Inl e # xs) = Inl e"
| "collect (Inr v # xs) = (case collect xs of Inl e \<Rightarrow> Inl e | Inr vs \<Rightarrow> Inr (v # vs))"

text \<open>
  \<open>get_sidebar_ads\<close>, lines 86 to 97. \<open>find_elements\<close> returns the list of the elements
  that match, the empty list when there is none; an element is modelled by its \<open>text\<close>.
\<close>

definition get_sidebar_ads :: "string list \<Rightarrow> error + sidebar_ad list" where
  "get_sidebar_ads ads_text = collect (map SidebarAd (map splitlines ads_text))"

text \<open>The text of an advertisement has exactly two lines.\<close>

definition two_lines :: "string \<Rightarrow> bool" where
  "two_lines t = (length (splitlines t) = 2)"

subsection \<open>What a harvest shows\<close>



section \<open>Properties of the retry loops\<close>

lemma yields_append [simp]: "yields (xs @ ys) = yields xs @ yields ys"
  by (induction xs rule: yields.induct) auto

lemma scroll_cycles_append [simp]: "scroll_cycles (xs @ ys) = scroll_cycles xs + scroll_cycles ys"
  by (simp add: scroll_cycles_def)

lemma probe_fst [simp]: "fst (probe sess s) = post_el sess (clock s) (i s)"
  by (simp add: probe_def Let_def)

lemma probe_snd [simp]:
  "snd (probe sess s) =
     s\<lparr>clock := clock s + 1,
       trace := trace s @ [Find (PostEl (i s)) (post_el sess (clock s) (i s) \<noteq> None)]\<rparr>"
  by (simp add: probe_def Let_def emit_def)

lemma load_loop_fail:
  "load_fail_count s < 10 \<Longrightarrow> post_el sess (clock s) (i s) = None \<Longrightarrow>
   load_loop sess flds s =
     load_loop sess flds
       (s\<lparr>load_fail_count := load_fail_count s + 1, clock := clock s + 1,
          trace := trace s @ [Find (PostEl (i s)) False, Sleep (1 / 2),
                    Warning (LoadFailCount (post_count s) (load_fail_count s + 1)),
                    Warning (Traceback (PostEl (i s))),
                    Warning (ExcStr (PostEl (i s)))]\<rparr>)"
  apply (subst load_loop.simps)
  apply (simp add: case_prod_beta Let_def emit_def)
  apply (rule arg_cong [where f = "load_loop sess flds"])
  apply simp
  done

lemma load_loop_found:
  "load_fail_count s < 10 \<Longrightarrow> post_el sess (clock s) (i s) = Some el \<Longrightarrow>
   load_loop sess flds s =
     s\<lparr>scroll_fail_count := 0, load_fail_count := 0, clock := clock s + 1,
       trace := trace s @ [Find (PostEl (i s)) True,
                           Yield (i s) (from_home_element sess el flds)]\<rparr>"
  apply (subst load_loop.simps)
  apply (simp add: case_prod_beta Let_def emit_def)
  done

lemma load_loop_done: "\<not> load_fail_count s < 10 \<Longrightarrow> load_loop sess flds s = s"
  by (subst load_loop.simps) simp

lemma load_loop_rel:
  assumes stop: "\<And>s. \<not> load_fail_count s < 10 \<Longrightarrow> P s s"
    and found: "\<And>s el. load_fail_count s < 10 \<Longrightarrow> post_el sess (clock s) (i s) = Some el \<Longrightarrow>
       P s (s\<lparr>scroll_fail_count := 0, load_fail_count := 0, clock := clock s + 1,
              trace := trace s @ [Find (PostEl (i s)) True,
                                  Yield (i s) (from_home_element sess el flds)]\<rparr>)"
    and fail: "\<And>s s'. load_fail_count s < 10 \<Longrightarrow> post_el sess (clock s) (i s) = None \<Longrightarrow>
       P (s\<lparr>load_fail_count := load_fail_count s + 1, clock := clock s + 1,
            trace := trace s @ [Find (PostEl (i s)) False, Sleep (1 / 2),
                      Warning (LoadFailCount (post_count s) (load_fail_count s + 1)),
                      Warning (Traceback (PostEl (i s))),
                      Warning (ExcStr (PostEl (i s)))]\<rparr>) s' \<Longrightarrow> P s s'"
  shows "P s (load_loop sess flds s)"
proof (induction "10 - load_fail_count s" arbitrary: s)
  case 0
  then have "\<not> load_fail_count s < 10" by simp
  then show ?case by (simp add: load_loop_done stop)
next
  case (Suc n)
  then have lt: "load_fail_count s < 10" by simp
  show ?case
  proof (cases "post_el sess (clock s) (i s)")
    case None
    let ?s = "s\<lparr>load_fail_count := load_fail_count s + 1, clock := clock s + 1,
            trace := trace s @ [Find (PostEl (i s)) False, Sleep (1 / 2),
                      Warning (LoadFailCount (post_count s) (load_fail_count s + 1)),
                      Warning (Traceback (PostEl (i s))),
                      Warning (ExcStr (PostEl (i s)))]\<rparr>"
    have "n = 10 - load_fail_count ?s" using Suc.hyps(2) by simp
    then have "P ?s (load_loop sess flds ?s)" by (rule Suc.hyps(1))
    then have "P s (load_loop sess flds ?s)" by (rule fail [OF lt None])
    then show ?thesis unfolding load_loop_fail [OF lt None] .
  next
    case (Some el)
    show ?thesis unfolding load_loop_found [OF lt Some] by (rule found [OF lt Some])
  qed
qed

lemma load_loop_i [simp]: "i (load_loop sess flds s) = i s"
  by (rule load_loop_rel [where P = "\<lambda>s s'. i s' = i s"]) simp_all

lemma load_loop_post_count [simp]: "post_count (load_loop sess flds s) = post_count s"
  by (rule load_loop_rel [where P = "\<lambda>s s'. post_count s' = post_count s"]) simp_all

lemma load_loop_scroll_cycles [simp]:
  "scroll_cycles (trace (load_loop sess flds s)) = scroll_cycles (trace s)"
  by (rule load_loop_rel [where P = "\<lambda>s s'. scroll_cycles (trace s') = scroll_cycles (trace s)"])
     (simp_all add: scroll_cycles_def)

lemma loop_body_i: "i (loop_body sess flds s) = i s + 1"
  by (simp add: loop_body_def Let_def case_prod_beta emit_def scroll_to_bottom_def scroll_to_pos_def
      split: option.split)

lemma half_sleeps_append [simp]: "half_sleeps (xs @ ys) = half_sleeps xs + half_sleeps ys"
  by (simp add: half_sleeps_def)

lemma after_scroll_simps [simp]:
  "i (after_scroll s) = i s"
  "post_count (after_scroll s) = post_count s"
  "scroll_fail_count (after_scroll s) = scroll_fail_count s + 1"
  "load_fail_count (after_scroll s) = 0"
  "clock (after_scroll s) = clock s + 1"
  "yields (trace (after_scroll s)) = yields (trace s)"
  "scroll_cycles (trace (after_scroll s)) = scroll_cycles (trace s) + 1"
  "half_sleeps (trace (after_scroll s)) = half_sleeps (trace s)"
  by (simp_all add: after_scroll_def scroll_cycles_def half_sleeps_def SCROLL_PAUSE_def)

lemma loop_body_found:
  "post_el sess (clock s) (i s) = Some el \<Longrightarrow>
   loop_body sess flds s =
     s\<lparr>i := i s + 1, clock := clock s + 1,
       trace := trace s @ [Find (PostEl (i s)) True,
                           Yield (i s) (from_home_element sess el flds)]\<rparr>"
  by (simp add: loop_body_def Let_def case_prod_beta emit_def)

lemma loop_body_fail:
  "post_el sess (clock s) (i s) = None \<Longrightarrow>
   loop_body sess flds s =
     (load_loop sess flds (after_scroll s))\<lparr>i := i s + 1\<rparr>"
  apply (simp add: loop_body_def Let_def case_prod_beta emit_def scroll_to_bottom_def
      scroll_to_pos_def after_scroll_def)
  apply (rule arg_cong [where f = "\<lambda>x. (load_loop sess flds x)\<lparr>i := Suc (i s)\<rparr>"])
  apply simp
  done

lemma load_loop_retry:
  "load_fail_count s + k < 10 \<Longrightarrow>
   \<forall>j<k. post_el sess (clock s + j) (i s) = None \<Longrightarrow>
   post_el sess (clock s + k) (i s) = Some el \<Longrightarrow>
   scroll_fail_count (load_loop sess flds s) = 0 \<and>
   load_fail_count (load_loop sess flds s) = 0 \<and>
   clock (load_loop sess flds s) = clock s + k + 1 \<and>
   yields (trace (load_loop sess flds s)) =
     yields (trace s) @ [(i s, from_home_element sess el flds)] \<and>
   half_sleeps (trace (load_loop sess flds s)) = half_sleeps (trace s) + k"
proof (induction k arbitrary: s)
  case 0
  then show ?case by (simp add: load_loop_found half_sleeps_def)
next
  case (Suc k)
  have lt: "load_fail_count s < 10" using Suc.prems(1) by simp
  have none: "post_el sess (clock s) (i s) = None" using Suc.prems(2) by force
  let ?s = "s\<lparr>load_fail_count := load_fail_count s + 1, clock := clock s + 1,
            trace := trace s @ [Find (PostEl (i s)) False, Sleep (1 / 2),
                      Warning (LoadFailCount (post_count s) (load_fail_count s + 1)),
                      Warning (Traceback (PostEl (i s))),
                      Warning (ExcStr (PostEl (i s)))]\<rparr>"
  have 1: "load_fail_count ?s + k < 10" using Suc.prems(1) by simp
  have 2: "\<forall>j<k. post_el sess (clock ?s + j) (i ?s) = None"
    using Suc.prems(2) by (auto dest: spec [where x = "Suc j" for j])
  have 3: "post_el sess (clock ?s + k) (i ?s) = Some el" using Suc.prems(3) by simp
  show ?case
    unfolding load_loop_fail [OF lt none]
    using Suc.IH [OF 1 2 3] by (simp add: half_sleeps_def)
qed

lemma load_loop_exhaust:
  "load_fail_count s + k = 10 \<Longrightarrow>
   \<forall>j<k. post_el sess (clock s + j) (i s) = None \<Longrightarrow>
   scroll_fail_count (load_loop sess flds s) = scroll_fail_count s \<and>
   load_fail_count (load_loop sess flds s) = 10 \<and>
   clock (load_loop sess flds s) = clock s + k \<and>
   yields (trace (load_loop sess flds s)) = yields (trace s) \<and>
   half_sleeps (trace (load_loop sess flds s)) = half_sleeps (trace s) + k"
proof (induction k arbitrary: s)
  case 0
  then show ?case by (simp add: load_loop_done)
next
  case (Suc k)
  have lt: "load_fail_count s < 10" using Suc.prems(1) by simp
  have none: "post_el sess (clock s) (i s) = None" using Suc.prems(2) by force
  let ?s = "s\<lparr>load_fail_count := load_fail_count s + 1, clock := clock s + 1,
            trace := trace s @ [Find (PostEl (i s)) False, Sleep (1 / 2),
                      Warning (LoadFailCount (post_count s) (load_fail_count s + 1)),
                      Warning (Traceback (PostEl (i s))),
                      Warning (ExcStr (PostEl (i s)))]\<rparr>"
  have 1: "load_fail_count ?s + k = 10" using Suc.prems(1) by simp
  have 2: "\<forall>j<k. post_el sess (clock ?s + j) (i ?s) = None"
    using Suc.prems(2) by (auto dest: spec [where x = "Suc j" for j])
  show ?case
    unfolding load_loop_fail [OF lt none]
    using Suc.IH [OF 1 2] by (simp add: half_sleeps_def)
qed

lemma browse_loop_iter:
  "browse_loop n sess flds s =
     (if scroll_fail_count (browse_iter n sess flds s) < 10 then None
      else Some (browse_iter n sess flds s))"
  by (induction n arbitrary: s) (simp_all add: browse_loop.simps)

lemma browse_loop_stop: "\<not> scroll_fail_count s < 10 \<Longrightarrow> browse_loop n sess flds s = Some s"
  by (simp add: browse_loop.simps)

lemma browse_loop_Suc:
  "scroll_fail_count s < 10 \<Longrightarrow>
   browse_loop (Suc n) sess flds s = browse_loop n sess flds (loop_body sess flds s)"
  by (simp add: browse_loop.simps)

lemma browse_loop_0: "scroll_fail_count s < 10 \<Longrightarrow> browse_loop 0 sess flds s = None"
  by (simp add: browse_loop.simps)

lemma browse_loop_mono:
  "browse_loop n sess flds s = Some s' \<Longrightarrow> browse_loop (n + m) sess flds s = Some s'"
proof (induction n arbitrary: s)
  case 0
  then show ?case by (cases "scroll_fail_count s < 10") (simp_all add: browse_loop.simps)
next
  case (Suc n)
  then show ?case
    by (cases "scroll_fail_count s < 10") (simp_all add: browse_loop_stop browse_loop_Suc)
qed

lemma loop_body_exhaust:
  assumes "\<forall>j<11. post_el sess (clock s + j) (i s) = None"
  shows "scroll_fail_count (loop_body sess flds s) = scroll_fail_count s + 1 \<and>
         load_fail_count (loop_body sess flds s) = 10 \<and>
         i (loop_body sess flds s) = i s + 1 \<and>
         clock (loop_body sess flds s) = clock s + 11 \<and>
         yields (trace (loop_body sess flds s)) = yields (trace s) \<and>
         scroll_cycles (trace (loop_body sess flds s)) = scroll_cycles (trace s) + 1 \<and>
         half_sleeps (trace (loop_body sess flds s)) = half_sleeps (trace s) + 10"
proof -
  have none: "post_el sess (clock s) (i s) = None" using assms by force
  have 1: "load_fail_count (after_scroll s) + 10 = 10" by simp
  have 2: "\<forall>j<10. post_el sess (clock (after_scroll s) + j) (i (after_scroll s)) = None"
    using assms by (auto dest: spec [where x = "Suc j" for j])
  show ?thesis
    unfolding loop_body_fail [OF none]
    using load_loop_exhaust [OF 1 2, of flds] by simp
qed

lemma browse_loop_all_fail:
  "\<forall>k j. i s \<le> j \<longrightarrow> post_el sess k j = None \<Longrightarrow> scroll_fail_count s + m = 10 \<Longrightarrow>
   \<exists>s'. browse_loop m sess flds s = Some s' \<and>
        scroll_fail_count s' = 10 \<and> i s' = i s + m \<and>
        clock s' = clock s + 11 * m \<and>
        yields (trace s') = yields (trace s) \<and>
        scroll_cycles (trace s') = scroll_cycles (trace s) + m \<and>
        half_sleeps (trace s') = half_sleeps (trace s) + 10 * m"
proof (induction m arbitrary: s)
  case 0
  then show ?case by (simp add: browse_loop_stop)
next
  case (Suc m)
  let ?s = "loop_body sess flds s"
  have ex: "\<forall>j<11. post_el sess (clock s + j) (i s) = None" using Suc.prems(1) by simp
  note b = loop_body_exhaust [OF ex, of flds]
  have 1: "\<forall>k j. i ?s \<le> j \<longrightarrow> post_el sess k j = None" using Suc.prems(1) b by simp
  have 2: "scroll_fail_count ?s + m = 10" using Suc.prems(2) b by simp
  have lt: "scroll_fail_count s < 10" using Suc.prems(2) by simp
  from Suc.IH [OF 1 2] obtain s' where s': "browse_loop m sess flds ?s = Some s'"
        "scroll_fail_count s' = 10" "i s' = i ?s + m"
        "clock s' = clock ?s + 11 * m"
        "yields (trace s') = yields (trace ?s)"
        "scroll_cycles (trace s') = scroll_cycles (trace ?s) + m"
        "half_sleeps (trace s') = half_sleeps (trace ?s) + 10 * m" by blast
  show ?case
    unfolding browse_loop_Suc [OF lt] using s' b by simp
qed

lemma browse_loop_all_fail_short:
  "\<forall>k j. i s \<le> j \<longrightarrow> post_el sess k j = None \<Longrightarrow> scroll_fail_count s + m < 10 \<Longrightarrow>
   browse_loop m sess flds s = None"
proof (induction m arbitrary: s)
  case 0
  then show ?case by (simp add: browse_loop_0)
next
  case (Suc m)
  let ?s = "loop_body sess flds s"
  have ex: "\<forall>j<11. post_el sess (clock s + j) (i s) = None" using Suc.prems(1) by simp
  note b = loop_body_exhaust [OF ex, of flds]
  have 1: "\<forall>k j. i ?s \<le> j \<longrightarrow> post_el sess k j = None" using Suc.prems(1) b by simp
  have 2: "scroll_fail_count ?s + m < 10" using Suc.prems(2) b by simp
  have lt: "scroll_fail_count s < 10" using Suc.prems(2) by simp
  show ?case
    unfolding browse_loop_Suc [OF lt] by (rule Suc.IH [OF 1 2])
qed

section \<open>The harvest\<close>

lemma browse_Inr:
  "browse_start sess t0 = Inr s0 \<Longrightarrow>
   browse n sess flds t0 =
     map_option Inr
       (browse_loop n sess (case flds of None \<Rightarrow> all_fields sess | Some f \<Rightarrow> f) s0)"
  by (simp add: browse_def)

lemma browse_start_found:
  "find_feed sess t0 \<Longrightarrow>
   browse_start sess t0 =
     Inr \<lparr>i = 1, post_count = 0, scroll_fail_count = 0, load_fail_count = 0,
          clock = t0, trace = [ScrollTo (Pixels 1), Find FeedEl True]\<rparr>"
  by (simp add: browse_start_def)

text \<open>
  C1: when no lookup of a post ever succeeds, the harvest ends after exactly 10 scroll
  cycles (10 passes of the outer loop, each with one scroll to the bottom of the page) and
  has handed nothing to its consumer. Fewer than 10 passes do not end it.
\<close>

theorem browse_never_found:
  assumes feed: "find_feed sess t0"
    and never: "\<forall>k j. post_el sess k j = None"
  shows "\<exists>s. browse 10 sess flds t0 = Some (Inr s) \<and>
             yields (trace s) = [] \<and>
             scroll_cycles (trace s) = 10 \<and>
             scroll_fail_count s = 10 \<and>
             (\<forall>n<10. browse n sess flds t0 = None)"
proof -
  let ?fs = "case flds of None \<Rightarrow> all_fields sess | Some f \<Rightarrow> f"
  let ?s0 = "\<lparr>i = 1, post_count = 0, scroll_fail_count = 0, load_fail_count = 0,
              clock = t0, trace = [ScrollTo (Pixels 1), Find FeedEl True]\<rparr> :: 'b state"
  have start: "browse_start sess t0 = Inr ?s0" by (rule browse_start_found [OF feed])
  have 1: "\<forall>k j. i ?s0 \<le> j \<longrightarrow> post_el sess k j = None" using never by simp
  have 2: "scroll_fail_count ?s0 + 10 = 10" by simp
  from browse_loop_all_fail [OF 1 2, of ?fs] obtain s where
    s: "browse_loop 10 sess ?fs ?s0 = Some s" "scroll_fail_count s = 10"
       "yields (trace s) = yields (trace ?s0)"
       "scroll_cycles (trace s) = scroll_cycles (trace ?s0) + 10" by blast
  have short: "browse n sess flds t0 = None" if "n < 10" for n
  proof -
    have "scroll_fail_count ?s0 + n < 10" using that by simp
    from browse_loop_all_fail_short [OF 1 this, of ?fs] show ?thesis
      by (simp add: browse_Inr [OF start])
  qed
  have "browse 10 sess flds t0 = Some (Inr s)"
    using s(1) by (simp add: browse_Inr [OF start])
  moreover have "yields (trace s) = []" using s(3) by simp
  moreover have "scroll_cycles (trace s) = 10" using s(4) by (simp add: scroll_cycles_def)
  ultimately show ?thesis using s(2) short by blast
qed

theorem browse_never_found_witness:
  "find_feed (static_feed 0) 0 \<and> (\<forall>k j. post_el (static_feed 0) k j = None) \<and>
   (\<exists>s. browse 10 (static_feed 0) None 0 = Some (Inr s) \<and>
        yields (trace s) = [] \<and>
        scroll_cycles (trace s) = 10 \<and>
        scroll_fail_count s = 10 \<and>
        (\<forall>n<10. browse n (static_feed 0) None 0 = None))"
proof -
  have 1: "find_feed (static_feed 0) 0" by (simp add: static_feed_def)
  have 2: "\<forall>k j. post_el (static_feed 0) k j = None" by (simp add: static_feed_def)
  show ?thesis using 1 2 browse_never_found [OF 1 2, of None] by blast
qed

text \<open>
  C7: when the feed element is not found at the start of the harvest, \<open>browse\<close> ends at
  once in \<open>exit(1)\<close>, whatever the fuel: it has scrolled to the top, logged the error
  message and printed the exception of the failed lookup; it has looked up no post and
  handed nothing to its consumer.
\<close>

theorem browse_feed_missing:
  "\<not> find_feed sess t0 \<Longrightarrow>
   browse fuel sess flds t0 =
     Some (Inl ([ScrollTo (Pixels 1), Find FeedEl False,
                 Error (Literal ''Could not find feed element!''), Print (ExcStr FeedEl)],
                SystemExit 1))"
  by (simp add: browse_def browse_start_def)

theorem browse_feed_missing_witness:
  "\<not> find_feed no_feed 0 \<and>
   browse 0 no_feed None 0 =
     Some (Inl ([ScrollTo (Pixels 1), Find FeedEl False,
                 Error (Literal ''Could not find feed element!''), Print (ExcStr FeedEl)],
                SystemExit 1))"
proof -
  have 1: "\<not> find_feed no_feed 0" by (simp add: no_feed_def)
  show ?thesis using 1 browse_feed_missing [OF 1, of 0 None] by simp
qed

lemma probed_append [simp]: "probed (xs @ ys) = probed xs @ probed ys"
  by (induction xs rule: probed.induct) auto

lemma replicate_step:
  "c < c' \<Longrightarrow> x # replicate (c' - Suc c) x = replicate (c' - c) x"
  by (cases "c' - c") (simp_all add: Suc_diff_Suc)

lemma load_loop_probed:
  "clock s \<le> clock (load_loop sess flds s) \<and>
   clock (load_loop sess flds s) + load_fail_count s \<le> clock s + max 10 (load_fail_count s) \<and>
   probed (trace (load_loop sess flds s)) =
     probed (trace s) @ replicate (clock (load_loop sess flds s) - clock s) (i s)"
proof (rule load_loop_rel [where P = "\<lambda>s s'. clock s \<le> clock s' \<and>
     clock s' + load_fail_count s \<le> clock s + max 10 (load_fail_count s) \<and>
     probed (trace s') = probed (trace s) @ replicate (clock s' - clock s) (i s)"], goal_cases)
  case (1 s)
  then show ?case by simp
next
  case (2 s el)
  then show ?case by simp
next
  case (3 s s')
  then have lt: "clock s < clock s'" by simp
  from 3 show ?case using replicate_step [OF lt, of "i s"] by simp
qed

lemma loop_body_probed:
  "clock s < clock (loop_body sess flds s) \<and>
   clock (loop_body sess flds s) \<le> clock s + 11 \<and>
   probed (trace (loop_body sess flds s)) =
     probed (trace s) @ replicate (clock (loop_body sess flds s) - clock s) (i s)"
proof (cases "post_el sess (clock s) (i s)")
  case None
  have lt: "clock s < clock (load_loop sess flds (after_scroll s))"
    using load_loop_probed [of "after_scroll s" sess flds] by simp
  have "probed (trace (after_scroll s)) = probed (trace s) @ [i s]"
    by (simp add: after_scroll_def)
  then show ?thesis
    unfolding loop_body_fail [OF None]
    using load_loop_probed [of "after_scroll s" sess flds] replicate_step [OF lt, of "i s"]
    by simp
next
  case (Some el)
  then show ?thesis by (simp add: loop_body_found)
qed

lemma loop_body_funpow_i: "i ((loop_body sess flds ^^ n) s) = i s + n"
  by (induction n) (simp_all add: loop_body_i)

text \<open>
  C2: every pass of the outer loop, one attempt at one position, leaves the position
  counter exactly 1 higher, whether the post was found at once, found on a retry or not
  found at all. The attempt makes between 1 and 11 lookups, all of them for the position
  it started with, so no position is retried beyond its pass; after \<open>n\<close> passes the
  counter has advanced by \<open>n\<close>.
\<close>

theorem position_advances:
  "i (loop_body sess flds s) = i s + 1 \<and>
   clock s < clock (loop_body sess flds s) \<and>
   clock (loop_body sess flds s) \<le> clock s + 11 \<and>
   probed (trace (loop_body sess flds s)) =
     probed (trace s) @ replicate (clock (loop_body sess flds s) - clock s) (i s) \<and>
   i ((loop_body sess flds ^^ n) s) = i s + n"
  using loop_body_probed [of s sess flds] by (simp add: loop_body_i loop_body_funpow_i)

lemma loop_body_scroll_cycles_fail:
  "post_el sess (clock s) (i s) = None \<Longrightarrow>
   scroll_cycles (trace (loop_body sess flds s)) = scroll_cycles (trace s) + 1"
  by (simp add: loop_body_fail)

lemma browse_loop_Some_stopped:
  "browse_loop n sess flds s = Some s' \<Longrightarrow> 10 \<le> scroll_fail_count s'"
  by (auto simp: browse_loop_iter split: if_splits)

text \<open>
  C3: when the lookup of line 167 and all 10 retries of the inner loop fail, each retry
  followed by its pause of half a second, the pass ends with the load-fail count at 10
  and the scroll-fail count one higher, and the outer loop goes on exactly when that
  scroll-fail count is still below 10; if the next lookup fails as well, another scroll
  cycle starts. The loop never ends with a scroll-fail count below 10.
\<close>

theorem load_retries_not_fatal:
  assumes "\<forall>j<11. post_el sess (clock s + j) (i s) = None"
  shows "load_fail_count (loop_body sess flds s) = 10 \<and>
         half_sleeps (trace (loop_body sess flds s)) = half_sleeps (trace s) + 10 \<and>
         scroll_fail_count (loop_body sess flds s) = scroll_fail_count s + 1 \<and>
         browse_loop (Suc n) sess flds (loop_body sess flds s) =
           (if scroll_fail_count s + 1 < 10
            then browse_loop n sess flds (loop_body sess flds (loop_body sess flds s))
            else Some (loop_body sess flds s)) \<and>
         (scroll_fail_count s + 1 < 10 \<and> post_el sess (clock s + 11) (i s + 1) = None \<longrightarrow>
            scroll_cycles (trace (loop_body sess flds (loop_body sess flds s))) =
              scroll_cycles (trace s) + 2) \<and>
         (\<forall>s'. browse_loop m sess flds s = Some s' \<longrightarrow> 10 \<le> scroll_fail_count s')"
proof -
  note b = loop_body_exhaust [OF assms, of flds]
  have 1: "browse_loop (Suc n) sess flds (loop_body sess flds s) =
           (if scroll_fail_count s + 1 < 10
            then browse_loop n sess flds (loop_body sess flds (loop_body sess flds s))
            else Some (loop_body sess flds s))"
    using b by (simp add: browse_loop_Suc browse_loop_stop)
  have 2: "scroll_cycles (trace (loop_body sess flds (loop_body sess flds s))) =
              scroll_cycles (trace s) + 2"
    if "post_el sess (clock s + 11) (i s + 1) = None"
  proof -
    have "post_el sess (clock (loop_body sess flds s)) (i (loop_body sess flds s)) = None"
      using that b by simp
    from loop_body_scroll_cycles_fail [OF this, of flds] show ?thesis using b by simp
  qed
  show ?thesis using b 1 2 by (simp add: browse_loop_Some_stopped)
qed

theorem load_retries_not_fatal_witness:
  "(\<forall>k j. post_el (static_feed 0) k j = None) \<and>
   load_fail_count (loop_body (static_feed 0) [] initial) = 10 \<and>
   half_sleeps (trace (loop_body (static_feed 0) [] initial)) = 10 \<and>
   scroll_fail_count (loop_body (static_feed 0) [] initial) = 1 \<and>
   browse_loop (Suc 0) (static_feed 0) [] (loop_body (static_feed 0) [] initial) =
     browse_loop 0 (static_feed 0) []
       (loop_body (static_feed 0) [] (loop_body (static_feed 0) [] initial)) \<and>
   scroll_cycles (trace (loop_body (static_feed 0) [] (loop_body (static_feed 0) [] initial))) = 2"
proof -
  have 1: "\<forall>j<11. post_el (static_feed 0) (clock (initial :: nat state) + j)
       (i (initial :: nat state)) = None"
    by (simp add: static_feed_def)
  have 2: "post_el (static_feed 0) (clock (initial :: nat state) + 11)
       (i (initial :: nat state) + 1) = None"
    by (simp add: static_feed_def)
  have 3: "scroll_fail_count (initial :: nat state) = 0"
    "half_sleeps (trace (initial :: nat state)) = 0"
    "scroll_cycles (trace (initial :: nat state)) = 0"
    by (simp_all add: initial_def half_sleeps_def scroll_cycles_def)
  have 4: "\<forall>k j. post_el (static_feed 0) k j = None"
    by (simp add: static_feed_def)
  show ?thesis
    using 2 3 4 load_retries_not_fatal [OF 1, of "[]" 0 0] by simp
qed

text \<open>
  C4: when the lookup of line 167 fails, the first \<open>k\<close> retries of the inner loop fail
  (\<open>k < 10\<close>) and the next retry finds the post, the pass hands that one record to the
  consumer and ends with the scroll-fail count and the load-fail count both 0 and the
  position counter exactly 1 higher. The next lookup starts from that state.
\<close>

theorem retry_success_resets:
  assumes "post_el sess (clock s) (i s) = None"
    and "k < 10"
    and "\<forall>j<k. post_el sess (clock s + 1 + j) (i s) = None"
    and "post_el sess (clock s + 1 + k) (i s) = Some el"
  shows "scroll_fail_count (loop_body sess flds s) = 0 \<and>
         load_fail_count (loop_body sess flds s) = 0 \<and>
         i (loop_body sess flds s) = i s + 1 \<and>
         clock (loop_body sess flds s) = clock s + k + 2 \<and>
         yields (trace (loop_body sess flds s)) =
           yields (trace s) @ [(i s, from_home_element sess el flds)] \<and>
         half_sleeps (trace (loop_body sess flds s)) = half_sleeps (trace s) + k"
proof -
  have 1: "load_fail_count (after_scroll s) + k < 10" using assms(2) by simp
  have 2: "\<forall>j<k. post_el sess (clock (after_scroll s) + j) (i (after_scroll s)) = None"
    using assms(3) by simp
  have 3: "post_el sess (clock (after_scroll s) + k) (i (after_scroll s)) = Some el"
    using assms(4) by simp
  show ?thesis
    unfolding loop_body_fail [OF assms(1)]
    using load_loop_retry [OF 1 2 3, of flds] by simp
qed

theorem retry_success_resets_witness:
  "post_el (late_feed 3) (clock (initial :: nat state)) (i (initial :: nat state)) = None \<and>
   (2::nat) < 10 \<and>
   post_el (late_feed 3) (clock (initial :: nat state) + 1 + 0) (i (initial :: nat state)) = None \<and>
   post_el (late_feed 3) (clock (initial :: nat state) + 1 + 1) (i (initial :: nat state)) = None \<and>
   post_el (late_feed 3) (clock (initial :: nat state) + 1 + 2) (i (initial :: nat state)) = Some 1 \<and>
   scroll_fail_count (loop_body (late_feed 3) [] initial) = 0 \<and>
   load_fail_count (loop_body (late_feed 3) [] initial) = 0 \<and>
   i (loop_body (late_feed 3) [] initial) = 2 \<and>
   yields (trace (loop_body (late_feed 3) [] initial)) = [(1, 1)] \<and>
   half_sleeps (trace (loop_body (late_feed 3) [] initial)) = 2"
proof -
  have 1: "post_el (late_feed 3) (clock (initial :: nat state)) (i (initial :: nat state)) = None"
    by (simp add: late_feed_def initial_def)
  have 2: "(2::nat) < 10" by simp
  have 3: "\<forall>j<2. post_el (late_feed 3) (clock (initial :: nat state) + 1 + j)
       (i (initial :: nat state)) = None"
    by (simp add: late_feed_def initial_def)
  have 4: "post_el (late_feed 3) (clock (initial :: nat state) + 1 + 2)
       (i (initial :: nat state)) = Some 1"
    by (simp add: late_feed_def initial_def)
  have 5: "i (initial :: nat state) = 1" "yields (trace (initial :: nat state)) = []"
    "half_sleeps (trace (initial :: nat state)) = 0"
    "from_home_element (late_feed 3) 1 [] = 1"
    by (simp_all add: initial_def half_sleeps_def late_feed_def)
  have 6: "post_el (late_feed 3) (clock (initial :: nat state) + 1 + 0)
       (i (initial :: nat state)) = None"
    "post_el (late_feed 3) (clock (initial :: nat state) + 1 + 1)
       (i (initial :: nat state)) = None"
    by (simp_all add: late_feed_def initial_def)
  show ?thesis
    using 1 4 5 6 retry_success_resets [OF 1 2 3 4, of "[]"] by simp
qed

lemma found_positions_append [simp]:
  "found_positions (xs @ ys) = found_positions xs @ found_positions ys"
  by (induction xs rule: found_positions.induct) auto

lemma load_loop_found_positions:
  "\<exists>xs. (xs = [] \<or> xs = [i s]) \<and>
     found_positions (trace (load_loop sess flds s)) = found_positions (trace s) @ xs \<and>
     map fst (yields (trace (load_loop sess flds s))) = map fst (yields (trace s)) @ xs"
  by (rule load_loop_rel [where P = "\<lambda>s s'. \<exists>xs. (xs = [] \<or> xs = [i s]) \<and>
     found_positions (trace s') = found_positions (trace s) @ xs \<and>
     map fst (yields (trace s')) = map fst (yields (trace s)) @ xs"]) auto

lemma loop_body_found_positions:
  "\<exists>xs. (xs = [] \<or> xs = [i s]) \<and>
     found_positions (trace (loop_body sess flds s)) = found_positions (trace s) @ xs \<and>
     map fst (yields (trace (loop_body sess flds s))) = map fst (yields (trace s)) @ xs"
proof (cases "post_el sess (clock s) (i s)")
  case None
  have "found_positions (trace (after_scroll s)) = found_positions (trace s)"
    by (simp add: after_scroll_def)
  then show ?thesis
    unfolding loop_body_fail [OF None]
    using load_loop_found_positions [of "after_scroll s" sess flds] by simp
next
  case (Some el)
  then show ?thesis by (simp add: loop_body_found)
qed

lemma harvest_inv_loop_body: "harvest_inv s \<Longrightarrow> harvest_inv (loop_body sess flds s)"
proof -
  assume inv: "harvest_inv s"
  from loop_body_found_positions [of s sess flds] obtain xs where
    xs: "xs = [] \<or> xs = [i s]"
    "found_positions (trace (loop_body sess flds s)) = found_positions (trace s) @ xs"
    "map fst (yields (trace (loop_body sess flds s))) = map fst (yields (trace s)) @ xs"
    by blast
  from xs(1) show ?thesis
  proof
    assume "xs = []"
    with inv xs(2,3) show ?thesis
      by (auto simp: harvest_inv_def loop_body_i list_all_iff)
  next
    assume "xs = [i s]"
    with inv xs(2,3) show ?thesis
      by (auto simp: harvest_inv_def loop_body_i list_all_iff sorted_wrt_append)
  qed
qed

lemma harvest_inv_browse_iter:
  "harvest_inv s \<Longrightarrow> harvest_inv (browse_iter n sess flds s)"
  by (induction n arbitrary: s) (simp_all add: harvest_inv_loop_body)

lemma harvest_inv_start: "browse_start sess t0 = Inr s0 \<Longrightarrow> harvest_inv s0"
  by (auto simp: browse_start_def harvest_inv_def Let_def split: if_splits)

lemma set_upt_1: "set [1..<Suc N] = {1..N}"
  by (simp only: set_upt atLeastLessThanSuc_atLeastAtMost)

lemma strictly_sorted_exact:
  fixes ps :: "nat list"
  assumes "sorted_wrt (<) ps" and "set ps = {1..N}"
  shows "ps = [1..<Suc N]"
proof (rule strict_sorted_equal)
  show "sorted_wrt (<) [1..<Suc N]" by (rule sorted_wrt_upt)
  show "sorted_wrt (<) ps" by (rule assms(1))
  show "set ps = set [1..<Suc N]" using assms(2) by (simp only: set_upt_1)
qed

lemma strictly_sorted_segment:
  fixes ps :: "nat list"
  assumes "sorted_wrt (<) ps" and "list_all (\<lambda>n. 1 \<le> n) ps" and "{1..N} \<subseteq> set ps"
  shows "filter (\<lambda>p. p \<le> N) ps = [1..<Suc N]"
proof (rule strict_sorted_equal)
  show "sorted_wrt (<) [1..<Suc N]" by (rule sorted_wrt_upt)
  show "sorted_wrt (<) (filter (\<lambda>p. p \<le> N) ps)" using assms(1) by (rule sorted_wrt_filter)
  have ge: "\<And>x. x \<in> set ps \<Longrightarrow> 1 \<le> x" using assms(2) by (simp add: list_all_iff)
  have "set (filter (\<lambda>p. p \<le> N) ps) = {1..N}"
  proof
    show "set (filter (\<lambda>p. p \<le> N) ps) \<subseteq> {1..N}" using ge by auto
    show "{1..N} \<subseteq> set (filter (\<lambda>p. p \<le> N) ps)" using assms(3) by auto
  qed
  then show "set (filter (\<lambda>p. p \<le> N) ps) = set [1..<Suc N]" by (simp only: set_upt_1)
qed

lemma static_run3:
  "found_positions (trace (browse_iter 3 (static_feed 3) [] (initial :: nat state))) = [1, 2, 3]"
  by code_simp

text \<open>
  C5: in a harvest, started by \<open>browse_start\<close> and observed after any number of passes of
  the outer loop, the positions of the records handed out increase strictly (no position
  twice). When the positions 1 to \<open>N\<close> have all been looked up successfully, the records
  for positions up to \<open>N\<close> are exactly those of 1, 2, ..., \<open>N\<close> in this order; and when
  these are all the positions found, the harvest has handed out exactly \<open>N\<close> records.
\<close>

theorem emitted_positions:
  assumes start: "browse_start sess t0 = Inr s0"
    and run: "s = browse_iter n sess flds s0"
    and all: "{1..N} \<subseteq> set (found_positions (trace s))"
  shows "sorted_wrt (<) (map fst (yields (trace s))) \<and>
         filter (\<lambda>p. p \<le> N) (map fst (yields (trace s))) = [1..<Suc N] \<and>
         (set (found_positions (trace s)) = {1..N} \<longrightarrow>
            map fst (yields (trace s)) = [1..<Suc N] \<and> length (yields (trace s)) = N)"
proof -
  have inv: "harvest_inv s"
    unfolding run by (rule harvest_inv_browse_iter [OF harvest_inv_start [OF start]])
  then have eq: "map fst (yields (trace s)) = found_positions (trace s)"
    and srt: "sorted_wrt (<) (found_positions (trace s))"
    and pos: "list_all (\<lambda>n. 1 \<le> n) (found_positions (trace s))"
    by (auto simp: harvest_inv_def list_all_iff)
  have 1: "filter (\<lambda>p. p \<le> N) (found_positions (trace s)) = [1..<Suc N]"
    by (rule strictly_sorted_segment [OF srt pos all])
  have 2: "map fst (yields (trace s)) = [1..<Suc N] \<and> length (yields (trace s)) = N"
    if "set (found_positions (trace s)) = {1..N}"
  proof -
    have "found_positions (trace s) = [1..<Suc N]"
      by (rule strictly_sorted_exact [OF srt that])
    then have m: "map fst (yields (trace s)) = [1..<Suc N]" using eq by (simp only:)
    have "length (yields (trace s)) = length (map fst (yields (trace s)))" by simp
    also have "\<dots> = length [1..<Suc N]" by (simp only: m)
    also have "\<dots> = N" by (simp del: upt_Suc)
    finally show ?thesis using m by blast
  qed
  show ?thesis using eq srt 1 2 by (simp del: upt_Suc)
qed

theorem emitted_positions_witness:
  "browse_start (static_feed 3) 0 = Inr initial \<and>
   {1..3} \<subseteq> set (found_positions (trace (browse_iter 3 (static_feed 3) [] (initial :: nat state)))) \<and>
   sorted_wrt (<) (map fst (yields (trace (browse_iter 3 (static_feed 3) [] (initial :: nat state))))) \<and>
   map fst (yields (trace (browse_iter 3 (static_feed 3) [] (initial :: nat state)))) = [1, 2, 3] \<and>
   length (yields (trace (browse_iter 3 (static_feed 3) [] (initial :: nat state)))) = 3"
proof -
  define s :: "nat state" where "s = browse_iter 3 (static_feed 3) [] initial"
  have 1: "browse_start (static_feed 3) 0 = Inr (initial :: nat state)"
    by (simp add: browse_start_def static_feed_def initial_def)
  have fp: "found_positions (trace s) = [1, 2, 3]" unfolding s_def by (rule static_run3)
  have set3: "set [1, 2, 3 :: nat] = {1..3}" by auto
  have 2: "{1..3} \<subseteq> set (found_positions (trace s))" by (simp only: fp set3 subset_refl)
  have 3: "set (found_positions (trace s)) = {1..3}" by (simp only: fp set3)
  have u: "[1..<Suc 3] = [1, 2, 3 :: nat]" by code_simp
  from emitted_positions [OF 1 s_def 2] 3 u 1 2 show ?thesis unfolding s_def by simp
qed

lemma browse_loop_late_fail:
  "\<forall>k j. clock s \<le> k \<and> i s \<le> j \<longrightarrow> post_el sess k j = None \<Longrightarrow>
   scroll_fail_count s + m = 10 \<Longrightarrow>
   \<exists>s'. browse_loop m sess flds s = Some s' \<and>
        scroll_fail_count s' = 10 \<and>
        yields (trace s') = yields (trace s) \<and>
        scroll_cycles (trace s') = scroll_cycles (trace s) + m"
proof (induction m arbitrary: s)
  case 0
  then show ?case by (simp add: browse_loop_stop)
next
  case (Suc m)
  let ?s = "loop_body sess flds s"
  have ex: "\<forall>j<11. post_el sess (clock s + j) (i s) = None" using Suc.prems(1) by simp
  note b = loop_body_exhaust [OF ex, of flds]
  have 1: "\<forall>k j. clock ?s \<le> k \<and> i ?s \<le> j \<longrightarrow> post_el sess k j = None"
    using Suc.prems(1) b by simp
  have 2: "scroll_fail_count ?s + m = 10" using Suc.prems(2) b by simp
  have lt: "scroll_fail_count s < 10" using Suc.prems(2) by simp
  from Suc.IH [OF 1 2] obtain s' where s': "browse_loop m sess flds ?s = Some s'"
        "scroll_fail_count s' = 10"
        "yields (trace s') = yields (trace ?s)"
        "scroll_cycles (trace s') = scroll_cycles (trace ?s) + m" by blast
  show ?case
    unfolding browse_loop_Suc [OF lt] using s' b by simp
qed

lemma browse_loop_late_fail_short:
  "\<forall>k j. clock s \<le> k \<and> i s \<le> j \<longrightarrow> post_el sess k j = None \<Longrightarrow>
   scroll_fail_count s + m < 10 \<Longrightarrow>
   browse_loop m sess flds s = None"
proof (induction m arbitrary: s)
  case 0
  then show ?case by (simp add: browse_loop_0)
next
  case (Suc m)
  let ?s = "loop_body sess flds s"
  have ex: "\<forall>j<11. post_el sess (clock s + j) (i s) = None" using Suc.prems(1) by simp
  note b = loop_body_exhaust [OF ex, of flds]
  have 1: "\<forall>k j. clock ?s \<le> k \<and> i ?s \<le> j \<longrightarrow> post_el sess k j = None"
    using Suc.prems(1) b by simp
  have 2: "scroll_fail_count ?s + m < 10" using Suc.prems(2) b by simp
  have lt: "scroll_fail_count s < 10" using Suc.prems(2) by simp
  show ?case
    unfolding browse_loop_Suc [OF lt] by (rule Suc.IH [OF 1 2])
qed

lemma pass_found:
  assumes d: "d \<le> 10"
    and fails: "\<forall>k<d. post_el sess (clock s + k) (i s) = None"
    and found: "post_el sess (clock s + d) (i s) \<noteq> None"
  shows "i (loop_body sess flds s) = i s + 1 \<and>
         clock (loop_body sess flds s) = clock s + d + 1 \<and>
         scroll_fail_count (loop_body sess flds s) = (if d = 0 then scroll_fail_count s else 0) \<and>
         map fst (yields (trace (loop_body sess flds s))) = map fst (yields (trace s)) @ [i s] \<and>
         scroll_cycles (trace (loop_body sess flds s)) =
           scroll_cycles (trace s) + (if d = 0 then 0 else 1)"
proof -
  from found obtain el where el: "post_el sess (clock s + d) (i s) = Some el" by blast
  show ?thesis
  proof (cases d)
    case 0
    then have "post_el sess (clock s) (i s) = Some el" using el by simp
    from loop_body_found [OF this, of flds] 0 show ?thesis
      by (simp add: scroll_cycles_def)
  next
    case (Suc k)
    have "0 < d" using Suc by simp
    with fails have "post_el sess (clock s + 0) (i s) = None" by blast
    then have none: "post_el sess (clock s) (i s) = None" by simp
    have 1: "load_fail_count (after_scroll s) + k < 10" using d Suc by simp
    have "post_el sess (clock s + Suc j) (i s) = None" if "j < k" for j
    proof -
      have "Suc j < d" using that Suc by simp
      with fails show ?thesis by blast
    qed
    then have 2: "\<forall>j<k. post_el sess (clock (after_scroll s) + j) (i (after_scroll s)) = None"
      by simp
    have 3: "post_el sess (clock (after_scroll s) + k) (i (after_scroll s)) = Some el"
      using el Suc by simp
    show ?thesis
      unfolding loop_body_fail [OF none]
      using load_loop_retry [OF 1 2 3, of flds] Suc by simp
  qed
qed

text \<open>
  C6: a feed of exactly 3 posts after which every lookup fails. The harvest hands out a
  post only when one of the lookups of its own pass finds it, the lookup of line 167 or
  one of the 10 retries. So: when the feed element is found, each of the positions 1, 2
  and 3 is found after at most 10 failed lookups of its pass (\<open>d1\<close>, \<open>d2\<close>, \<open>d3\<close> of
  them) and from then on no lookup at a position above 3 succeeds, the harvest hands out
  exactly 3 records, those of positions 1, 2 and 3 in this order, and returns normally
  (\<open>Inr\<close>, not \<open>exit\<close>) with the scroll-fail count at 10, after 10 further passes with one
  scroll cycle each: 13 passes end the loop and fewer do not.
\<close>

theorem three_items_within_retries:
  assumes feed: "find_feed sess t0"
    and d: "d1 \<le> 10 \<and> d2 \<le> 10 \<and> d3 \<le> 10"
    and fail1: "\<forall>k<d1. post_el sess (t0 + k) 1 = None"
    and item1: "post_el sess (t0 + d1) 1 \<noteq> None"
    and fail2: "\<forall>k<d2. post_el sess (t0 + d1 + 1 + k) 2 = None"
    and item2: "post_el sess (t0 + d1 + 1 + d2) 2 \<noteq> None"
    and fail3: "\<forall>k<d3. post_el sess (t0 + d1 + d2 + 2 + k) 3 = None"
    and item3: "post_el sess (t0 + d1 + d2 + 2 + d3) 3 \<noteq> None"
    and empty: "\<forall>k j. t0 + d1 + d2 + d3 + 3 \<le> k \<and> 3 < j \<longrightarrow> post_el sess k j = None"
  shows "\<exists>s. browse 13 sess flds t0 = Some (Inr s) \<and>
             length (yields (trace s)) = 3 \<and>
             map fst (yields (trace s)) = [1, 2, 3] \<and>
             scroll_fail_count s = 10 \<and>
             scroll_cycles (trace s) =
               10 + (if d1 = 0 then 0 else 1) + (if d2 = 0 then 0 else 1) +
                 (if d3 = 0 then 0 else 1) \<and>
             (\<forall>n<13. browse n sess flds t0 = None) \<and>
             (\<forall>n\<ge>13. browse n sess flds t0 = Some (Inr s))"
proof -
  define fs where "fs = (case flds of None \<Rightarrow> all_fields sess | Some f \<Rightarrow> f)"
  define s0 :: "'b state" where
    "s0 = \<lparr>i = 1, post_count = 0, scroll_fail_count = 0, load_fail_count = 0,
              clock = t0, trace = [ScrollTo (Pixels 1), Find FeedEl True]\<rparr>"
  define s1 where "s1 = loop_body sess fs s0"
  define s2 where "s2 = loop_body sess fs s1"
  define s3 where "s3 = loop_body sess fs s2"
  have s0_simps: "i s0 = 1" "scroll_fail_count s0 = 0" "map fst (yields (trace s0)) = []"
    "scroll_cycles (trace s0) = 0" "clock s0 = t0"
    by (simp_all add: s0_def scroll_cycles_def)
  have start: "browse_start sess t0 = Inr s0"
    unfolding s0_def by (rule browse_start_found [OF feed])
  have br: "browse n sess flds t0 = map_option Inr (browse_loop n sess fs s0)" for n
    unfolding fs_def by (rule browse_Inr [OF start])
  \<comment> \<open>the pass for position 1\<close>
  have a1: "d1 \<le> 10" using d by simp
  have b1: "\<forall>k<d1. post_el sess (clock s0 + k) (i s0) = None"
    using fail1 by (simp add: s0_simps)
  have c1: "post_el sess (clock s0 + d1) (i s0) \<noteq> None"
    using item1 by (simp add: s0_simps)
  note p1 = pass_found [OF a1 b1 c1, of fs, folded s1_def]
  have s1_simps: "i s1 = 2" "clock s1 = t0 + d1 + 1" "scroll_fail_count s1 = 0"
    "map fst (yields (trace s1)) = [1]"
    "scroll_cycles (trace s1) = (if d1 = 0 then 0 else 1)"
    using p1 by (simp_all add: s0_simps)
  \<comment> \<open>the pass for position 2\<close>
  have a2: "d2 \<le> 10" using d by simp
  have b2: "\<forall>k<d2. post_el sess (clock s1 + k) (i s1) = None"
    using fail2 by (simp add: s1_simps)
  have c2: "post_el sess (clock s1 + d2) (i s1) \<noteq> None"
    using item2 by (simp add: s1_simps)
  note p2 = pass_found [OF a2 b2 c2, of fs, folded s2_def]
  have s2_simps: "i s2 = 3" "clock s2 = t0 + d1 + d2 + 2" "scroll_fail_count s2 = 0"
    "map fst (yields (trace s2)) = [1, 2]"
    "scroll_cycles (trace s2) = (if d1 = 0 then 0 else 1) + (if d2 = 0 then 0 else 1)"
    using p2 by (simp_all add: s1_simps)
  \<comment> \<open>the pass for position 3\<close>
  have a3: "d3 \<le> 10" using d by simp
  have b3: "\<forall>k<d3. post_el sess (clock s2 + k) (i s2) = None"
    using fail3 by (simp add: s2_simps)
  have c3: "post_el sess (clock s2 + d3) (i s2) \<noteq> None"
    using item3 by (simp add: s2_simps)
  note p3 = pass_found [OF a3 b3 c3, of fs, folded s3_def]
  have s3_simps: "i s3 = 4" "clock s3 = t0 + d1 + d2 + d3 + 3" "scroll_fail_count s3 = 0"
    "map fst (yields (trace s3)) = [1, 2, 3]"
    "scroll_cycles (trace s3) =
       (if d1 = 0 then 0 else 1) + (if d2 = 0 then 0 else 1) + (if d3 = 0 then 0 else 1)"
    using p3 by (simp_all add: s2_simps)
  \<comment> \<open>three passes of fuel\<close>
  have f3: "browse_loop (Suc (Suc (Suc r))) sess fs s0 = browse_loop r sess fs s3" for r
  proof -
    have "browse_loop (Suc (Suc (Suc r))) sess fs s0 = browse_loop (Suc (Suc r)) sess fs s1"
      unfolding s1_def by (rule browse_loop_Suc) (simp add: s0_simps)
    also have "\<dots> = browse_loop (Suc r) sess fs s2"
      unfolding s2_def by (rule browse_loop_Suc) (simp add: s1_simps)
    also have "\<dots> = browse_loop r sess fs s3"
      unfolding s3_def by (rule browse_loop_Suc) (simp add: s2_simps)
    finally show ?thesis .
  qed
  \<comment> \<open>the ten failing passes\<close>
  have e: "\<forall>k j. clock s3 \<le> k \<and> i s3 \<le> j \<longrightarrow> post_el sess k j = None"
    using empty by (simp add: s3_simps)
  have m10: "scroll_fail_count s3 + 10 = 10" by (simp add: s3_simps)
  from browse_loop_late_fail [OF e m10, of fs] obtain s where
    s: "browse_loop 10 sess fs s3 = Some s" "scroll_fail_count s = 10"
       "yields (trace s) = yields (trace s3)"
       "scroll_cycles (trace s) = scroll_cycles (trace s3) + 10" by blast
  have n13: "(13::nat) = Suc (Suc (Suc 10))" by simp
  have n12: "(12::nat) = Suc (Suc (Suc 9))" by simp
  have l13: "browse_loop 13 sess fs s0 = Some s"
    unfolding n13 f3 by (rule s(1))
  have m9: "scroll_fail_count s3 + 9 < 10" by (simp add: s3_simps)
  have l12: "browse_loop 12 sess fs s0 = None"
    unfolding n12 f3 by (rule browse_loop_late_fail_short [OF e m9])
  have short: "browse n sess flds t0 = None" if "n < 13" for n
  proof (cases "browse_loop n sess fs s0")
    case None
    then show ?thesis by (simp add: br)
  next
    case (Some x)
    from browse_loop_mono [OF Some, of "12 - n"] that l12 show ?thesis by simp
  qed
  have long: "browse n sess flds t0 = Some (Inr s)" if "13 \<le> n" for n
    using browse_loop_mono [OF l13, of "n - 13"] that by (simp add: br)
  have ys: "map fst (yields (trace s)) = [1, 2, 3]" by (simp only: s(3) s3_simps)
  have "length (yields (trace s)) = length (map fst (yields (trace s)))" by simp
  then have len: "length (yields (trace s)) = 3" unfolding ys by simp
  have b13: "browse 13 sess flds t0 = Some (Inr s)" by (rule long) simp
  have sc: "scroll_cycles (trace s) =
      10 + (if d1 = 0 then 0 else 1) + (if d2 = 0 then 0 else 1) + (if d3 = 0 then 0 else 1)"
    unfolding s(4) s3_simps by simp
  show ?thesis
  proof (intro exI conjI allI impI)
    show "browse 13 sess flds t0 = Some (Inr s)" by (rule b13)
    show "length (yields (trace s)) = 3" by (rule len)
    show "map fst (yields (trace s)) = [1, 2, 3]" by (rule ys)
    show "scroll_fail_count s = 10" by (rule s(2))
    show "scroll_cycles (trace s) =
      10 + (if d1 = 0 then 0 else 1) + (if d2 = 0 then 0 else 1) + (if d3 = 0 then 0 else 1)"
      by (rule sc)
    show "browse n sess flds t0 = None" if "n < 13" for n using that by (rule short)
    show "browse n sess flds t0 = Some (Inr s)" if "13 \<le> n" for n using that by (rule long)
  qed
qed

theorem three_items_within_retries_witness:
  "find_feed lazy_feed 0 \<and>
   post_el lazy_feed 0 1 = Some 1 \<and>
   post_el lazy_feed 1 2 = Some 2 \<and>
   post_el lazy_feed 2 3 = None \<and>
   post_el lazy_feed 3 3 = Some 3 \<and>
   (\<exists>s. browse 13 lazy_feed None 0 = Some (Inr s) \<and>
        length (yields (trace s)) = 3 \<and>
        map fst (yields (trace s)) = [1, 2, 3] \<and>
        scroll_fail_count s = 10 \<and>
        scroll_cycles (trace s) = 11 \<and>
        (\<forall>n<13. browse n lazy_feed None 0 = None) \<and>
        (\<forall>n\<ge>13. browse n lazy_feed None 0 = Some (Inr s)))"
proof -
  have feed: "find_feed lazy_feed 0" by (simp add: lazy_feed_def)
  have d: "(0::nat) \<le> 10 \<and> (0::nat) \<le> 10 \<and> (1::nat) \<le> 10" by simp
  have fail1: "\<forall>k<0. post_el lazy_feed (0 + k) 1 = None" by simp
  have item1: "post_el lazy_feed (0 + 0) 1 \<noteq> None" by (simp add: lazy_feed_def)
  have fail2: "\<forall>k<0. post_el lazy_feed (0 + 0 + 1 + k) 2 = None" by simp
  have item2: "post_el lazy_feed (0 + 0 + 1 + 0) 2 \<noteq> None" by (simp add: lazy_feed_def)
  have fail3: "\<forall>k<1. post_el lazy_feed (0 + 0 + 0 + 2 + k) 3 = None"
    by (simp add: lazy_feed_def)
  have item3: "post_el lazy_feed (0 + 0 + 0 + 2 + 1) 3 \<noteq> None" by (simp add: lazy_feed_def)
  have empty: "\<forall>k j. 0 + 0 + 0 + 1 + 3 \<le> k \<and> 3 < j \<longrightarrow> post_el lazy_feed k j = None"
    by (simp add: lazy_feed_def)
  note t = three_items_within_retries
    [OF feed d fail1 item1 fail2 item2 fail3 item3 empty, of None]
  have ex: "\<exists>s. browse 13 lazy_feed None 0 = Some (Inr s) \<and>
        length (yields (trace s)) = 3 \<and>
        map fst (yields (trace s)) = [1, 2, 3] \<and>
        scroll_fail_count s = 10 \<and>
        scroll_cycles (trace s) = 11 \<and>
        (\<forall>n<13. browse n lazy_feed None 0 = None) \<and>
        (\<forall>n\<ge>13. browse n lazy_feed None 0 = Some (Inr s))"
    using t by simp
  show ?thesis
  proof (intro conjI)
    show "find_feed lazy_feed 0" by (rule feed)
    show "post_el lazy_feed 0 1 = Some 1" by (simp add: lazy_feed_def)
    show "post_el lazy_feed 1 2 = Some 2" by (simp add: lazy_feed_def)
    show "post_el lazy_feed 2 3 = None" by (simp add: lazy_feed_def)
    show "post_el lazy_feed 3 3 = Some 3" by (simp add: lazy_feed_def)
    show "\<exists>s. browse 13 lazy_feed None 0 = Some (Inr s) \<and>
        length (yields (trace s)) = 3 \<and>
        map fst (yields (trace s)) = [1, 2, 3] \<and>
        scroll_fail_count s = 10 \<and>
        scroll_cycles (trace s) = 11 \<and>
        (\<forall>n<13. browse n lazy_feed None 0 = None) \<and>
        (\<forall>n\<ge>13. browse n lazy_feed None 0 = Some (Inr s))" by (rule ex)
  qed
qed

text \<open>
  Without the bound on the failed lookups the harvest loses posts: on a feed whose three
  posts are rendered after eleven lookups, the pass of position 1 uses up its eleven
  lookups and the position is skipped; the harvest returns with the records of positions
  2 and 3 only.
\<close>

theorem three_items_slow_counterexample:
  "harvested (browse 12 slow_feed None 0) = Some [2, 3]"
proof -
  define s0 :: "nat state" where "s0 = initial"
  define s1 where "s1 = loop_body slow_feed [] s0"
  define s2 where "s2 = loop_body slow_feed [] s1"
  define s3 where "s3 = loop_body slow_feed [] s2"
  have s0_simps: "i s0 = 1" "scroll_fail_count s0 = 0" "yields (trace s0) = []" "clock s0 = 0"
    by (simp_all add: s0_def initial_def)
  have start: "browse_start slow_feed 0 = Inr s0"
    by (simp add: browse_start_def slow_feed_def s0_def initial_def)
  have br: "browse n slow_feed None 0 = map_option Inr (browse_loop n slow_feed [] s0)" for n
    using browse_Inr [OF start, of n None] by (simp add: slow_feed_def)
  \<comment> \<open>position 1: the lookup and its ten retries fail\<close>
  have "\<forall>j<11. post_el slow_feed (clock s0 + j) (i s0) = None"
    by (simp add: s0_simps slow_feed_def)
  note p1 = loop_body_exhaust [OF this, of "[]", folded s1_def]
  have s1_simps: "i s1 = 2" "clock s1 = 11" "scroll_fail_count s1 = 1"
    "map fst (yields (trace s1)) = []"
    using p1 by (simp_all add: s0_simps)
  \<comment> \<open>positions 2 and 3 are found at once\<close>
  have a: "(0::nat) \<le> 10" by simp
  have b2: "\<forall>k<0. post_el slow_feed (clock s1 + k) (i s1) = None" by simp
  have c2: "post_el slow_feed (clock s1 + 0) (i s1) \<noteq> None"
    by (simp add: s1_simps slow_feed_def)
  note p2 = pass_found [OF a b2 c2, of "[]", folded s2_def]
  have s2_simps: "i s2 = 3" "clock s2 = 12" "scroll_fail_count s2 = 1"
    "map fst (yields (trace s2)) = [2]"
    using p2 by (simp_all add: s1_simps)
  have b3: "\<forall>k<0. post_el slow_feed (clock s2 + k) (i s2) = None" by simp
  have c3: "post_el slow_feed (clock s2 + 0) (i s2) \<noteq> None"
    by (simp add: s2_simps slow_feed_def)
  note p3 = pass_found [OF a b3 c3, of "[]", folded s3_def]
  have s3_simps: "i s3 = 4" "clock s3 = 13" "scroll_fail_count s3 = 1"
    "map fst (yields (trace s3)) = [2, 3]"
    using p3 by (simp_all add: s2_simps)
  have f3: "browse_loop (Suc (Suc (Suc r))) slow_feed [] s0 = browse_loop r slow_feed [] s3" for r
  proof -
    have "browse_loop (Suc (Suc (Suc r))) slow_feed [] s0 =
          browse_loop (Suc (Suc r)) slow_feed [] s1"
      unfolding s1_def by (rule browse_loop_Suc) (simp add: s0_simps)
    also have "\<dots> = browse_loop (Suc r) slow_feed [] s2"
      unfolding s2_def by (rule browse_loop_Suc) (simp add: s1_simps)
    also have "\<dots> = browse_loop r slow_feed [] s3"
      unfolding s3_def by (rule browse_loop_Suc) (simp add: s2_simps)
    finally show ?thesis .
  qed
  have e: "\<forall>k j. clock s3 \<le> k \<and> i s3 \<le> j \<longrightarrow> post_el slow_feed k j = None"
    by (simp add: s3_simps slow_feed_def)
  have m9: "scroll_fail_count s3 + 9 = 10" by (simp add: s3_simps)
  from browse_loop_late_fail [OF e m9, of "[]"] obtain s where
    s: "browse_loop 9 slow_feed [] s3 = Some s" "yields (trace s) = yields (trace s3)" by blast
  have n12: "(12::nat) = Suc (Suc (Suc 9))" by simp
  have "browse_loop 12 slow_feed [] s0 = Some s" unfolding n12 f3 by (rule s(1))
  then have "browse 12 slow_feed None 0 = Some (Inr s)" by (simp add: br)
  then show ?thesis by (simp add: harvested_def s(2) s3_simps)
qed

section \<open>The sidebar advertisements\<close>

lemma SidebarAd_two:
  "length lst = 2 \<Longrightarrow> \<exists>a. SidebarAd lst = Inr a \<and> [ad_text a, ad_link a] = lst"
proof -
  assume "length lst = 2"
  then obtain t l where "lst = [t, l]"
    by (cases lst; cases "tl lst") auto
  then show ?thesis by (simp add: SidebarAd_def)
qed

lemma SidebarAd_other: "length lst \<noteq> 2 \<Longrightarrow> SidebarAd lst = Inl TypeError"
  by (auto simp: SidebarAd_def split: list.splits)

lemma get_sidebar_ads_Cons_two:
  "two_lines t \<Longrightarrow>
   \<exists>a. [ad_text a, ad_link a] = splitlines t \<and>
       get_sidebar_ads (t # ts) =
         (case get_sidebar_ads ts of Inl e \<Rightarrow> Inl e | Inr vs \<Rightarrow> Inr (a # vs))"
proof -
  assume "two_lines t"
  then have "length (splitlines t) = 2" by (simp add: two_lines_def)
  from SidebarAd_two [OF this] obtain a where
    a: "SidebarAd (splitlines t) = Inr a" "[ad_text a, ad_link a] = splitlines t" by blast
  show ?thesis by (rule exI [of _ a]) (simp add: get_sidebar_ads_def a)
qed

lemma get_sidebar_ads_Cons_other:
  "\<not> two_lines t \<Longrightarrow> get_sidebar_ads (t # ts) = Inl TypeError"
  by (simp add: get_sidebar_ads_def two_lines_def SidebarAd_other)

lemma get_sidebar_ads_all_two:
  "list_all two_lines texts \<Longrightarrow>
   \<exists>ads. get_sidebar_ads texts = Inr ads \<and>
         map (\<lambda>a. [ad_text a, ad_link a]) ads = map splitlines texts"
proof (induction texts)
  case Nil
  then show ?case by (simp add: get_sidebar_ads_def)
next
  case (Cons t ts)
  then have t: "two_lines t" and ts: "list_all two_lines ts" by simp_all
  from Cons.IH [OF ts] obtain ads where
    ads: "get_sidebar_ads ts = Inr ads"
      "map (\<lambda>a. [ad_text a, ad_link a]) ads = map splitlines ts" by blast
  from get_sidebar_ads_Cons_two [OF t, of ts] obtain a where
    a: "[ad_text a, ad_link a] = splitlines t"
      "get_sidebar_ads (t # ts) =
         (case get_sidebar_ads ts of Inl e \<Rightarrow> Inl e | Inr vs \<Rightarrow> Inr (a # vs))" by blast
  have "get_sidebar_ads (t # ts) = Inr (a # ads)" using a(2) ads(1) by simp
  moreover have "map (\<lambda>a. [ad_text a, ad_link a]) (a # ads) = map splitlines (t # ts)"
    using a(1) ads(2) by simp
  ultimately show ?case by blast
qed

lemma get_sidebar_ads_some_other:
  "\<not> list_all two_lines texts \<Longrightarrow> get_sidebar_ads texts = Inl TypeError"
proof (induction texts)
  case Nil
  then show ?case by simp
next
  case (Cons t ts)
  show ?case
  proof (cases "two_lines t")
    case True
    then have "\<not> list_all two_lines ts" using Cons.prems by simp
    then have ih: "get_sidebar_ads ts = Inl TypeError" by (rule Cons.IH)
    from get_sidebar_ads_Cons_two [OF True, of ts] obtain a where
      "get_sidebar_ads (t # ts) =
         (case get_sidebar_ads ts of Inl e \<Rightarrow> Inl e | Inr vs \<Rightarrow> Inr (a # vs))" by blast
    then show ?thesis by (simp add: ih)
  next
    case False
    then show ?thesis by (rule get_sidebar_ads_Cons_other)
  qed
qed

text \<open>
  C9: with no advertisement element on the page \<open>get_sidebar_ads\<close> returns the empty
  list. With elements on the page it returns one pair of text and link for each of them
  when the text of every element has exactly two lines, and raises a TypeError when the
  text of some element has another number of lines.
\<close>

theorem get_sidebar_ads_two_lines:
  "get_sidebar_ads [] = Inr [] \<and>
   (list_all two_lines texts \<longrightarrow>
      (\<exists>ads. get_sidebar_ads texts = Inr ads \<and> length ads = length texts \<and>
            map (\<lambda>a. [ad_text a, ad_link a]) ads = map splitlines texts)) \<and>
   (\<not> list_all two_lines texts \<longrightarrow> get_sidebar_ads texts = Inl TypeError)"
proof (intro conjI impI)
  show "get_sidebar_ads [] = Inr []" by (simp add: get_sidebar_ads_def)
next
  assume "list_all two_lines texts"
  from get_sidebar_ads_all_two [OF this] obtain ads where
    ads: "get_sidebar_ads texts = Inr ads"
      "map (\<lambda>a. [ad_text a, ad_link a]) ads = map splitlines texts" by blast
  have "length (map (\<lambda>a. [ad_text a, ad_link a]) ads) = length (map splitlines texts)"
    by (simp only: ads(2))
  then have "length ads = length texts" by simp
  with ads show "\<exists>ads. get_sidebar_ads texts = Inr ads \<and> length ads = length texts \<and>
            map (\<lambda>a. [ad_text a, ad_link a]) ads = map splitlines texts" by blast
next
  assume "\<not> list_all two_lines texts"
  then show "get_sidebar_ads texts = Inl TypeError" by (rule get_sidebar_ads_some_other)
qed

lemma splitlines_sample:
  "splitlines (''Acme\<newline>acme.example'') = [''Acme'', ''acme.example'']"
  by (simp add: splitlines_def is_linebreak_def)

theorem get_sidebar_ads_two_lines_witness:
  "two_lines (''Acme\<newline>acme.example'') \<and>
   get_sidebar_ads [''Acme\<newline>acme.example''] =
     Inr [\<lparr>ad_text = ''Acme'', ad_link = ''acme.example''\<rparr>] \<and>
   get_sidebar_ads [] = Inr []"
proof -
  have 1: "two_lines (''Acme\<newline>acme.example'')"
    by (simp add: two_lines_def splitlines_sample)
  then have 2: "list_all two_lines [''Acme\<newline>acme.example'']" by simp
  note t = get_sidebar_ads_two_lines [of "[''Acme\<newline>acme.example'']"]
  from t [THEN conjunct2, THEN conjunct1, THEN mp, OF 2] obtain ads where
    ads: "get_sidebar_ads [''Acme\<newline>acme.example''] = Inr ads"
      "map (\<lambda>a. [ad_text a, ad_link a]) ads =
         map splitlines [''Acme\<newline>acme.example'']" by blast
  from ads(2) obtain a where a: "ads = [a]" "[ad_text a, ad_link a] = [''Acme'', ''acme.example'']"
    by (cases ads) (simp_all add: splitlines_sample)
  then have "a = \<lparr>ad_text = ''Acme'', ad_link = ''acme.example''\<rparr>" by simp
  with ads(1) a(1) have 3: "get_sidebar_ads [''Acme\<newline>acme.example''] =
     Inr [\<lparr>ad_text = ''Acme'', ad_link = ''acme.example''\<rparr>]" by simp
  show ?thesis using 1 3 t [THEN conjunct1] by (intro conjI)
qed

text \<open>
  So the call can fail: on a page whose only advertisement element has a text of one line
  it raises.
\<close>

theorem get_sidebar_ads_one_line_counterexample:
  "get_sidebar_ads [''Sponsored''] = Inl TypeError"
  by (simp add: get_sidebar_ads_def splitlines_def SidebarAd_def is_linebreak_def)

section \<open>Two harvests\<close>















end
